theory Spec2Isabelle
  imports Complex_Main "HOL-Library.Log_Nat"
begin

section \<open>Python values shared by the scripts\<close>

text \<open>
  The scripts are Python. Integers are unbounded (\<open>int\<close>); an exception is a value of
  \<open>py_error\<close> and a function that may raise returns \<open>py_error + 'a\<close>.
\<close>

datatype py_error =
  IndexError | KeyError | ValueError | AssertionError | ZeroDivisionError | StatisticsError

text \<open>
  A Python float is represented by the real number it denotes, or by one of the three
  special values. Conversions and arithmetic on floats are taken exact, with one exception:
  the sum \<open>max(u.values()) + 1\<close> of the symmetry-handling branch is rounded to binary64
  (\<open>round_double\<close> below), because the order between that sum and its argument depends on
  the rounding. A Python number is an integer or a float.
\<close>

datatype pyfloat = Finite real | PosInf | NegInf | NaN

datatype pynum = PyInt int | PyFloat pyfloat

text \<open>\<open>float(i)\<close> for an integer.\<close>

definition float_of_int :: "int \<Rightarrow> pyfloat" where
  "float_of_int i = Finite (real_of_int i)"

text \<open>\<open>range(n)\<close> for an integer \<open>n\<close>: empty when \<open>n \<le> 0\<close>.\<close>

definition range_py :: "int \<Rightarrow> int list" where
  "range_py n = map int [0..<nat n]"


section \<open>Covering designs: \<open>covering_designs/generate.py\<close>\<close>

subsection \<open>\<open>is_sorted_subset\<close>\<close>

text \<open>
  The inner loop \<open>while superset[i] < a: i += 1\<close>. The result is the index at which the
  loop stops, or \<open>None\<close> when \<open>superset[i]\<close> raises IndexError.
\<close>

function advance :: "int list \<Rightarrow> nat \<Rightarrow> int \<Rightarrow> nat option" where
  "advance super_seq i a =
     (if i < length super_seq
      then (if super_seq ! i < a then advance super_seq (i + 1) a else Some i)
      else None)"
  by pat_completeness auto
termination
  by (relation "measure (\<lambda>(super_seq, i, a). length super_seq - i)") auto

declare advance.simps [simp del]

text \<open>
  The body of the \<open>try\<close> block: the \<open>for a in subset\<close> loop, with the scan index \<open>i\<close>
  carried from one element to the next. \<open>None\<close> is a raised IndexError; after
  \<open>advance\<close> has returned \<open>Some j\<close> the read \<open>superset[j]\<close> is in range.
\<close>

fun subset_loop :: "int list \<Rightarrow> int list \<Rightarrow> nat \<Rightarrow> bool option" where
  "subset_loop [] super_seq i = Some True"
| "subset_loop (a # rest) super_seq i =
     (case advance super_seq i a of
        None \<Rightarrow> None
      | Some j \<Rightarrow>
          (if j < length super_seq
           then (if super_seq ! j = a then subset_loop rest super_seq j else Some False)
           else None))"

text \<open>\<open>except IndexError: return False\<close>.\<close>

definition is_sorted_subset :: "int list \<Rightarrow> int list \<Rightarrow> bool" where
  "is_sorted_subset sub_seq super_seq =
     (case subset_loop sub_seq super_seq 0 of None \<Rightarrow> False | Some b \<Rightarrow> b)"

subsection \<open>Strings built by the scripts\<close>

text \<open>\<open>str(i)\<close> for an integer: its decimal digits, with a leading minus sign.\<close>

definition digit_char :: "nat \<Rightarrow> char" where
  "digit_char d = char_of (48 + d)"

fun str_nat :: "nat \<Rightarrow> string" where
  "str_nat n = (if n < 10 then [digit_char n] else str_nat (n div 10) @ [digit_char (n mod 10)])"

declare str_nat.simps [simp del]

definition str_int :: "int \<Rightarrow> string" where
  "str_int i = (if i < 0 then CHR ''-'' # str_nat (nat (- i)) else str_nat (nat i))"

text \<open>\<open>sep.join(parts)\<close>.\<close>

fun join :: "string \<Rightarrow> string list \<Rightarrow> string" where
  "join sep [] = []"
| "join sep [p] = p"
| "join sep (p # q # ps) = p @ sep @ join sep (q # ps)"

subsection \<open>The model handed to the solver library\<close>

text \<open>
  The scripts build a \<open>pyscipopt.Model\<close> by calling \<open>addVar\<close>, \<open>addCons\<close> and
  \<open>setObjective\<close>. The solver library is outside the repository; a model is represented
  here by what the script has passed to it: the variables and constraints in the order of
  the calls, and the objective. A power \<open>M**i\<close> used as a coefficient is kept as the
  pair of its base and exponent.
\<close>

datatype vtype = Integer_type | Continuous_type

record variable =
  var_name :: string
  var_vtype :: vtype
  var_lb :: pyfloat
  var_ub :: "pyfloat option"

datatype expr =
  Var variable | Const pynum | Power pynum int | Times expr expr | Quicksum "expr list"

datatype cons = Geq expr expr | Equ expr expr | Leq expr expr

datatype sense = Minimize | Maximize

record Model =
  problemName :: string
  model_vars :: "variable list"
  model_conss :: "(string \<times> cons) list"
  model_objective :: "(expr \<times> sense) option"

definition new_Model :: "string \<Rightarrow> Model" where
  "new_Model nm = \<lparr>problemName = nm, model_vars = [], model_conss = [], model_objective = None\<rparr>"

text \<open>\<open>model.addVar(name=.., vtype=.., lb=.., ub=..)\<close> returns the new variable.\<close>

definition addVar :: "string \<Rightarrow> vtype \<Rightarrow> pyfloat \<Rightarrow> pyfloat option \<Rightarrow> Model \<Rightarrow> variable \<times> Model" where
  "addVar nm vt l u model =
     (let w = \<lparr>var_name = nm, var_vtype = vt, var_lb = l, var_ub = u\<rparr>
      in (w, model\<lparr>model_vars := model_vars model @ [w]\<rparr>))"

definition addCons :: "string \<Rightarrow> cons \<Rightarrow> Model \<Rightarrow> Model" where
  "addCons nm c model = model\<lparr>model_conss := model_conss model @ [(nm, c)]\<rparr>"

definition setObjective :: "expr \<Rightarrow> sense \<Rightarrow> Model \<Rightarrow> Model" where
  "setObjective e sn model = model\<lparr>model_objective := Some (e, sn)\<rparr>"

text \<open>A dictionary read \<open>x[key]\<close> on a dictionary kept in insertion order.\<close>

definition dict_get :: "('k \<times> 'v) list \<Rightarrow> 'k \<Rightarrow> py_error + 'v" where
  "dict_get dict key = (case map_of dict key of None \<Rightarrow> Inl KeyError | Some w \<Rightarrow> Inr w)"

text \<open>A generator expression whose element may raise: the first exception ends it.\<close>

fun collect :: "('a \<Rightarrow> py_error + 'b) \<Rightarrow> 'a list \<Rightarrow> py_error + 'b list" where
  "collect f [] = Inr []"
| "collect f (y # ys) =
     (case f y of
        Inl e \<Rightarrow> Inl e
      | Inr w \<Rightarrow> (case collect f ys of Inl e \<Rightarrow> Inl e | Inr ws \<Rightarrow> Inr (w # ws)))"

subsection \<open>\<open>generate_covering_design\<close>\<close>

text \<open>
  \<open>itertools.combinations(pool, r)\<close>, a function of the Python library: the
  \<open>r\<close>-element subsequences of \<open>pool\<close> in lexicographic order of their positions. A
  negative \<open>r\<close> raises ValueError.
\<close>

fun combinations :: "'a list \<Rightarrow> nat \<Rightarrow> 'a list list" where
  "combinations pool 0 = [[]]"
| "combinations [] (Suc r) = []"
| "combinations (y # pool) (Suc r) = map ((#) y) (combinations pool r) @ combinations pool (Suc r)"

definition itertools_combinations :: "'a list \<Rightarrow> int \<Rightarrow> py_error + 'a list list" where
  "itertools_combinations pool r = (if r < 0 then Inl ValueError else Inr (combinations pool (nat r)))"

text \<open>The name \<open>f"x[{j}:{','.join(map(str, entries_k))}]"\<close> and its sibling for constraints.\<close>

definition indexed_name :: "string \<Rightarrow> nat \<Rightarrow> int list \<Rightarrow> string" where
  "indexed_name prefix j entries =
     prefix @ ''['' @ str_int (int j) @ '':'' @ join '','' (map str_int entries) @ '']''"

text \<open>
  The dictionary comprehension that creates one variable per element of \<open>set_k\<close>; the
  pairs \<open>(j, entries_k)\<close> come from \<open>enumerate(set_k)\<close>.
\<close>

fun add_block_vars ::
  "int \<Rightarrow> (nat \<times> int list) list \<Rightarrow> Model \<Rightarrow> (nat \<times> variable) list \<times> Model" where
  "add_block_vars lamb [] model = ([], model)"
| "add_block_vars lamb ((j, entries_k) # rest) model =
     (let (w, model1) = addVar (indexed_name ''x'' j entries_k) Integer_type (Finite 0) (Some (float_of_int lamb)) model;
          (x, model2) = add_block_vars lamb rest model1
      in ((j, w) # x, model2))"

text \<open>The loop \<open>for i, entries_t in enumerate(set_t)\<close> that adds one constraint per pass.\<close>

fun add_cover_conss ::
  "int \<Rightarrow> (nat \<times> variable) list \<Rightarrow> int list list \<Rightarrow> (nat \<times> int list) list \<Rightarrow> Model
     \<Rightarrow> py_error + Model" where
  "add_cover_conss lamb x set_k [] model = Inr model"
| "add_cover_conss lamb x set_k ((i, entries_t) # rest) model =
     (case collect (\<lambda>(j, entries_k). dict_get x j)
             (filter (\<lambda>(j, entries_k). is_sorted_subset entries_t entries_k) (enumerate 0 set_k)) of
        Inl e \<Rightarrow> Inl e
      | Inr ws \<Rightarrow>
          add_cover_conss lamb x set_k rest
            (addCons (indexed_name ''cov'' i entries_t)
               (Geq (Quicksum (map Var ws)) (Const (PyInt lamb))) model))"

definition generate_covering_design :: "int \<Rightarrow> int \<Rightarrow> int \<Rightarrow> int \<Rightarrow> py_error + Model" where
  "generate_covering_design lamb v k t =
     (let model = new_Model (''cov_'' @ str_int lamb @ ''('' @ str_int v @ '','' @ str_int k
                               @ '','' @ str_int t @ '')'')
      in case itertools_combinations (range_py v) k of
           Inl e \<Rightarrow> Inl e
         | Inr set_k \<Rightarrow>
             (case itertools_combinations (range_py v) t of
                Inl e \<Rightarrow> Inl e
              | Inr set_t \<Rightarrow>
                  (let (x, model1) = add_block_vars lamb (enumerate 0 set_k) model
                   in case add_cover_conss lamb x set_k (enumerate 0 set_t) model1 of
                        Inl e \<Rightarrow> Inl e
                      | Inr model2 \<Rightarrow>
                          Inr (setObjective (Quicksum (map (\<lambda>(j, w). Var w) x)) Minimize model2))))"

subsection \<open>The batch driver of \<open>covering_designs/generate.py\<close>\<close>

text \<open>
  The driver walks \<open>itertools.product(lambs, vs, ks, ts)\<close>. The output directory is a map
  from file names to the models written to them; \<open>calls\<close> records, in order, the
  arguments of every call of \<open>generate_covering_design\<close>.
\<close>

type_synonym params = "int \<times> int \<times> int \<times> int"

record driver_state =
  files :: "string \<Rightarrow> Model option"
  calls :: "params list"

definition writepath_of :: "params \<Rightarrow> string" where
  "writepath_of p =
     (case p of (lamb, v, k, t) \<Rightarrow>
        ''cov_'' @ str_int lamb @ ''('' @ str_int v @ '','' @ str_int k @ '','' @ str_int t @ '').cip'')"

definition main_body :: "params \<Rightarrow> driver_state \<Rightarrow> py_error + driver_state" where
  "main_body p st =
     (case p of (lamb, v, k, t) \<Rightarrow>
        (let writepath = writepath_of p
         in if files st writepath \<noteq> None then Inr st
            else if v \<le> k then Inr st
            else if k \<le> t then Inr st
            else (case generate_covering_design lamb v k t of
                    Inl e \<Rightarrow> Inl e
                  | Inr model \<Rightarrow>
                      Inr (st\<lparr>files := (files st)(writepath := Some model),
                              calls := calls st @ [p]\<rparr>))))"

fun main_loop :: "params list \<Rightarrow> driver_state \<Rightarrow> py_error + driver_state" where
  "main_loop [] st = Inr st"
| "main_loop (p # ps) st =
     (case main_body p st of Inl e \<Rightarrow> Inl e | Inr st1 \<Rightarrow> main_loop ps st1)"

definition lambs :: "int list" where
  "lambs = map int [2..<4]"

definition vs :: "int list" where
  "vs = map int [1..<13]"

definition product4 :: "int list \<Rightarrow> int list \<Rightarrow> int list \<Rightarrow> int list \<Rightarrow> params list" where
  "product4 as bs cs ds = concat (map (\<lambda>a. concat (map (\<lambda>b. concat (map (\<lambda>c. map (\<lambda>d. (a, b, c, d)) ds) cs)) bs)) as)"

definition covering_main :: "(string \<Rightarrow> Model option) \<Rightarrow> py_error + driver_state" where
  "covering_main fs = main_loop (product4 lambs vs vs vs) \<lparr>files = fs, calls = []\<rparr>"

text \<open>The relation required of the parameters: \<open>v > k > t \<ge> 0\<close>.\<close>

definition required_relation :: "params \<Rightarrow> bool" where
  "required_relation p = (case p of (lamb, v, k, t) \<Rightarrow> k < v \<and> t < k \<and> 0 \<le> t)"

section \<open>Noise dosage: \<open>noise_dosage/generate.py\<close>\<close>

subsection \<open>The instance\<close>

record NoiseDosage =
  nd_name :: string
  nd_m :: int
  nd_n :: int
  nd_alpha :: "pyfloat list"
  nd_d :: "int list"
  nd_t :: "pyfloat list"
  nd_total_hours :: int

text \<open>
  \<open>NoiseDosage.__init__\<close>. The \<open>isinstance\<close> assertions hold by the types of the
  arguments; the three assertions on lengths are the ones that can fail. The statement
  \<open>isinstance(total_hours, int)\<close> of the source is not an assertion and checks nothing.
\<close>

definition NoiseDosage_init ::
  "string \<Rightarrow> int \<Rightarrow> int \<Rightarrow> pyfloat list \<Rightarrow> int list \<Rightarrow> pyfloat list \<Rightarrow> int
     \<Rightarrow> py_error + NoiseDosage" where
  "NoiseDosage_init name m n alpha d t total_hours =
     (if int (length alpha) \<noteq> m then Inl AssertionError
      else if int (length d) \<noteq> m then Inl AssertionError
      else if int (length t) \<noteq> m then Inl AssertionError
      else Inr \<lparr>nd_name = name, nd_m = m, nd_n = n, nd_alpha = alpha, nd_d = d, nd_t = t,
                 nd_total_hours = total_hours\<rparr>)"

text \<open>
  The invariants the data model asks of an instance: the three lists have length \<open>m\<close>, all
  dosage and duration values are non-negative, and \<open>total_hours\<close> is positive.
\<close>

fun nonnegative :: "pyfloat \<Rightarrow> bool" where
  "nonnegative (Finite a) = (0 \<le> a)"
| "nonnegative PosInf = True"
| "nonnegative NegInf = False"
| "nonnegative NaN = False"

definition lengths_agree :: "NoiseDosage \<Rightarrow> bool" where
  "lengths_agree inst =
     (int (length (nd_alpha inst)) = nd_m inst \<and> int (length (nd_d inst)) = nd_m inst
      \<and> int (length (nd_t inst)) = nd_m inst)"

definition data_model_invariants :: "NoiseDosage \<Rightarrow> bool" where
  "data_model_invariants inst =
     (lengths_agree inst \<and> list_all nonnegative (nd_alpha inst)
      \<and> list_all nonnegative (nd_t inst) \<and> 0 < nd_total_hours inst)"

subsection \<open>Python arithmetic used by the symmetry-handling branch\<close>















subsection \<open>\<open>generate_noise_dosage\<close>\<close>






















section \<open>Reading an instance file: \<open>read_noise_dosage\<close>\<close>

subsection \<open>The conversions \<open>int(s)\<close> and \<open>float(s)\<close> of the Python library\<close>

text \<open>
  Strings are lists of bytes. White space is what \<open>str.strip\<close> and \<open>str.split\<close> take for
  white space among the ASCII characters: tab, line feed, vertical tab, form feed, carriage
  return, the four separators \<open>0x1C\<close> to \<open>0x1F\<close>, and the space. Digits are the ASCII
  digits. The white space and the digits that Unicode adds to these are left out.
\<close>

definition is_space :: "char \<Rightarrow> bool" where
  "is_space c = (let k = (of_char c :: nat) in (9 \<le> k \<and> k \<le> 13) \<or> (28 \<le> k \<and> k \<le> 32))"


text \<open>\<open>s.split()\<close>: the maximal runs of characters that are not white space. \<open>cur\<close> holds
  the current run, reversed.\<close>

fun split_from :: "string \<Rightarrow> string \<Rightarrow> string list" where
  "split_from cur [] = (if cur = [] then [] else [rev cur])"
| "split_from cur (c # cs) =
     (if is_space c
      then (if cur = [] then split_from [] cs else rev cur # split_from [] cs)
      else split_from (c # cur) cs)"

definition split :: "string \<Rightarrow> string list" where
  "split s = split_from [] s"













subsection \<open>\<open>read_noise_dosage\<close>\<close>






section \<open>The instance generator: \<open>noise_dosage/data_generator.py\<close>\<close>












section \<open>Properties of \<open>is_sorted_subset\<close>\<close>

lemma advance_Some:
  "advance super_seq i a = Some j \<Longrightarrow>
     i \<le> j \<and> j < length super_seq \<and> a \<le> super_seq ! j \<and> (\<forall>k. i \<le> k \<and> k < j \<longrightarrow> super_seq ! k < a)"
proof (induction super_seq i a rule: advance.induct)
  case (1 super_seq i a)
  from "1.prems" have inb: "i < length super_seq"
    by (subst (asm) advance.simps) (simp split: if_splits)
  show ?case
  proof (cases "super_seq ! i < a")
    case True
    with inb "1.prems" have step: "advance super_seq (i + 1) a = Some j"
      by (subst (asm) advance.simps) simp
    from inb True "1.IH" step have ih:
      "i + 1 \<le> j \<and> j < length super_seq \<and> a \<le> super_seq ! j
         \<and> (\<forall>k. i + 1 \<le> k \<and> k < j \<longrightarrow> super_seq ! k < a)"
      by simp
    have "super_seq ! k < a" if "i \<le> k \<and> k < j" for k
    proof (cases "k = i")
      case True
      with \<open>super_seq ! i < a\<close> show ?thesis by simp
    next
      case False
      with that ih show ?thesis by simp
    qed
    with ih show ?thesis by simp
  next
    case False
    with inb "1.prems" have "j = i"
      by (subst (asm) advance.simps) simp
    with inb False show ?thesis by simp
  qed
qed

lemma advance_None:
  "advance super_seq i a = None \<Longrightarrow> i \<le> k \<Longrightarrow> k < length super_seq \<Longrightarrow> super_seq ! k < a"
proof (induction super_seq i a rule: advance.induct)
  case (1 super_seq i a)
  from "1.prems" have inb: "i < length super_seq" by simp
  from inb "1.prems"(1) have lt: "super_seq ! i < a"
    by (subst (asm) advance.simps) (simp split: if_splits)
  from inb lt "1.prems"(1) have step: "advance super_seq (i + 1) a = None"
    by (subst (asm) advance.simps) simp
  show ?case
  proof (cases "k = i")
    case True
    with lt show ?thesis by simp
  next
    case False
    with "1.prems" have "i + 1 \<le> k" by simp
    with "1.IH" inb lt step "1.prems"(3) show ?thesis by simp
  qed
qed

lemma subset_loop_sorted:
  assumes "sorted super_seq" and "sorted sub_seq"
    and "\<forall>x \<in> set sub_seq. \<forall>k < i. super_seq ! k < x"
  shows "(subset_loop sub_seq super_seq i = Some True) = (set sub_seq \<subseteq> set super_seq)"
  using assms(2,3)
proof (induction sub_seq arbitrary: i)
  case Nil
  then show ?case by simp
next
  case (Cons a rest)
  have below: "super_seq ! k < a" if "k < i" for k
    using Cons.prems(2) that by simp
  have rest_ge: "a \<le> x" if "x \<in> set rest" for x
    using Cons.prems(1) that by simp
  have sorted_rest: "sorted rest"
    using Cons.prems(1) by simp
  show ?case
  proof (cases "advance super_seq i a")
    case None
    have "super_seq ! k < a" if "k < length super_seq" for k
    proof (cases "k < i")
      case True
      then show ?thesis by (rule below)
    next
      case False
      with advance_None [OF None, of k] that show ?thesis by simp
    qed
    then have "a \<notin> set super_seq"
      by (auto simp: in_set_conv_nth)
    with None show ?thesis by simp
  next
    case (Some j)
    from advance_Some [OF Some]
    have j: "i \<le> j" "j < length super_seq" "a \<le> super_seq ! j"
      and skipped: "\<And>k. i \<le> k \<Longrightarrow> k < j \<Longrightarrow> super_seq ! k < a"
      by auto
    have before: "super_seq ! k < a" if "k < j" for k
      using below [of k] skipped [of k] that by (cases "k < i") auto
    show ?thesis
    proof (cases "super_seq ! j = a")
      case True
      have inv: "\<forall>x \<in> set rest. \<forall>k < j. super_seq ! k < x"
        using before rest_ge by fastforce
      have mem: "a \<in> set super_seq"
        using True j(2) by (auto simp: in_set_conv_nth)
      from Cons.IH [OF sorted_rest inv] Some True j(2) mem
      show ?thesis by simp
    next
      case False
      with j(3) have gt: "a < super_seq ! j" by simp
      have "super_seq ! k \<noteq> a" if "k < length super_seq" for k
      proof (cases "k < j")
        case True
        with before [of k] show ?thesis by simp
      next
        case False
        then have "super_seq ! j \<le> super_seq ! k"
          using assms(1) that by (simp add: sorted_nth_mono)
        with gt show ?thesis by simp
      qed
      then have "a \<notin> set super_seq"
        by (auto simp: in_set_conv_nth)
      with Some False j(2) show ?thesis by simp
    qed
  qed
qed

lemma is_sorted_subset_iff:
  assumes "sorted sub_seq" and "sorted super_seq"
  shows "is_sorted_subset sub_seq super_seq = (set sub_seq \<subseteq> set super_seq)"
proof -
  have "(subset_loop sub_seq super_seq 0 = Some True) = (set sub_seq \<subseteq> set super_seq)"
    using assms by (intro subset_loop_sorted) simp_all
  then show ?thesis
    by (auto simp: is_sorted_subset_def split: option.splits)
qed

lemma subset_loop_exhausted:
  assumes "a \<in> set sub_seq" and "\<forall>x \<in> set super_seq. x < a"
  shows "subset_loop sub_seq super_seq i \<noteq> Some True"
  using assms(1)
proof (induction sub_seq arbitrary: i)
  case Nil
  then show ?case by simp
next
  case (Cons b rest)
  show ?case
  proof (cases "advance super_seq i b")
    case None
    then show ?thesis by simp
  next
    case (Some j)
    from advance_Some [OF Some] have j: "j < length super_seq" "b \<le> super_seq ! j"
      by auto
    from j(1) assms(2) have "super_seq ! j < a" by simp
    with j(2) have "b \<noteq> a" by auto
    with Cons.prems have "a \<in> set rest" by simp
    from Cons.IH [OF this] Some show ?thesis by simp
  qed
qed

lemma subset_loop_match_keeps_index:
  assumes "i < length super_seq" and "super_seq ! i = a"
  shows "subset_loop (a # rest) super_seq i = subset_loop rest super_seq i"
proof -
  from assms have "advance super_seq i a = Some i"
    by (subst advance.simps) simp
  with assms show ?thesis by simp
qed

text \<open>
  C5. On sorted ascending integer sequences \<open>is_sorted_subset([2,4],[1,2,3,4,5])\<close> is
  true, \<open>is_sorted_subset([],xs)\<close> is true for every \<open>xs\<close> and
  \<open>is_sorted_subset([2,6],[1,2,3,4,5])\<close> is false. In the last call the scan leaves the
  superset (the loop body raises IndexError, \<open>None\<close> in the model) and the function returns
  false; in general, whenever some element of the subset is larger than every element of
  the superset, the result is false.
\<close>

theorem is_sorted_subset_examples:
  "is_sorted_subset [2, 4] [1, 2, 3, 4, 5]
   \<and> (\<forall>xs. is_sorted_subset [] xs)
   \<and> \<not> is_sorted_subset [2, 6] [1, 2, 3, 4, 5]
   \<and> subset_loop [2, 6] [1, 2, 3, 4, 5] 0 = None
   \<and> (\<forall>sub_seq super_seq a.
         a \<in> set sub_seq \<and> (\<forall>x \<in> set super_seq. x < a) \<longrightarrow> \<not> is_sorted_subset sub_seq super_seq)"
proof (intro conjI allI impI)
  show "is_sorted_subset [2, 4] [1, 2, 3, 4, 5]"
    by (simp add: is_sorted_subset_def advance.simps)
  show "is_sorted_subset [] xs" for xs
    by (simp add: is_sorted_subset_def)
  show "\<not> is_sorted_subset [2, 6] [1, 2, 3, 4, 5]"
    by (simp add: is_sorted_subset_def advance.simps)
  show "subset_loop [2, 6] [1, 2, 3, 4, 5] 0 = None"
    by (simp add: advance.simps)
  show "\<not> is_sorted_subset sub_seq super_seq"
    if "a \<in> set sub_seq \<and> (\<forall>x \<in> set super_seq. x < a)" for sub_seq super_seq a
    using subset_loop_exhausted [of a sub_seq super_seq 0] that
    by (auto simp: is_sorted_subset_def split: option.splits)
qed

theorem is_sorted_subset_examples_witness:
  "(6::int) \<in> set [2, 6] \<and> list_all (\<lambda>x. x < 6) [1, 2, 3, 4, 5 :: int]
   \<and> \<not> is_sorted_subset [2, 6] [1, 2, 3, 4, 5]"
proof -
  have h: "(6::int) \<in> set [2, 6] \<and> (\<forall>x \<in> set [1, 2, 3, 4, 5 :: int]. x < 6)"
    by simp
  from is_sorted_subset_examples
  have "(6::int) \<in> set [2, 6] \<and> (\<forall>x \<in> set [1, 2, 3, 4, 5 :: int]. x < 6)
          \<longrightarrow> \<not> is_sorted_subset [2, 6] [1, 2, 3, 4, 5]"
    by blast
  with h have "\<not> is_sorted_subset [2, 6] [1, 2, 3, 4, 5]"
    by blast
  then show ?thesis by simp
qed

text \<open>
  C10. After a successful match the scan index is not advanced: the next element of the
  subset is compared with the same position of the superset. Hence, on sorted sequences,
  the result is true exactly when every value of the subset occurs in the superset, however
  often it is repeated in the subset; \<open>is_sorted_subset([2,2],[1,2,3])\<close> is true although
  2 occurs once in the superset.
\<close>

theorem is_sorted_subset_repeated_values:
  "is_sorted_subset [2, 2] [1, 2, 3]
   \<and> (\<forall>a rest super_seq i.
         i < length super_seq \<and> super_seq ! i = a
           \<longrightarrow> subset_loop (a # rest) super_seq i = subset_loop rest super_seq i)
   \<and> (\<forall>sub_seq super_seq.
         sorted sub_seq \<and> sorted super_seq
           \<longrightarrow> is_sorted_subset sub_seq super_seq = (set sub_seq \<subseteq> set super_seq))"
proof (intro conjI allI impI)
  show "is_sorted_subset [2, 2] [1, 2, 3]"
    by (simp add: is_sorted_subset_def advance.simps)
  show "subset_loop (a # rest) super_seq i = subset_loop rest super_seq i"
    if "i < length super_seq \<and> super_seq ! i = a" for a rest super_seq i
    using that by (intro subset_loop_match_keeps_index) simp_all
  show "is_sorted_subset sub_seq super_seq = (set sub_seq \<subseteq> set super_seq)"
    if "sorted sub_seq \<and> sorted super_seq" for sub_seq super_seq
    using that by (intro is_sorted_subset_iff) simp_all
qed

theorem is_sorted_subset_repeated_values_witness:
  "(1::nat) < length [1, 2, 3 :: int] \<and> [1, 2, 3 :: int] ! 1 = 2
   \<and> subset_loop (2 # [2]) [1, 2, 3] 1 = subset_loop [2] [1, 2, 3] 1
   \<and> sorted [2, 2 :: int] \<and> sorted [1, 2, 3 :: int]
   \<and> is_sorted_subset [2, 2] [1, 2, 3] = (set [2, 2] \<subseteq> set [1, 2, 3 :: int])"
proof -
  have h1: "(1::nat) < length [1, 2, 3 :: int] \<and> [1, 2, 3 :: int] ! 1 = 2"
    by simp
  have h2: "sorted [2, 2 :: int] \<and> sorted [1, 2, 3 :: int]"
    by simp
  from is_sorted_subset_repeated_values h1
  have c1: "subset_loop (2 # [2]) [1, 2, 3] 1 = subset_loop [2] [1, 2, 3] 1"
    by blast
  from is_sorted_subset_repeated_values h2
  have c2: "is_sorted_subset [2, 2] [1, 2, 3] = (set [2, 2] \<subseteq> set [1, 2, 3 :: int])"
    by blast
  from h1 h2 c1 c2 show ?thesis by blast
qed

section \<open>Properties of the covering-design model and its driver\<close>

lemma length_combinations: "length (combinations pool r) = length pool choose r"
  by (induction pool r rule: combinations.induct) simp_all

lemma add_block_vars_result:
  "add_block_vars lamb js model = (x, model1) \<Longrightarrow>
     map fst x = map fst js
     \<and> model_vars model1 = model_vars model @ map snd x
     \<and> model_conss model1 = model_conss model
     \<and> model_objective model1 = model_objective model
     \<and> problemName model1 = problemName model"
proof (induction js arbitrary: model x model1)
  case Nil
  then show ?case by simp
next
  case (Cons p js)
  obtain j entries_k where p: "p = (j, entries_k)" by (cases p)
  obtain w m1 where av: "addVar (indexed_name ''x'' j entries_k) Integer_type (Finite 0) (Some (float_of_int lamb)) model = (w, m1)"
    by (cases "addVar (indexed_name ''x'' j entries_k) Integer_type (Finite 0) (Some (float_of_int lamb)) model")
  obtain x2 m2 where rec: "add_block_vars lamb js m1 = (x2, m2)"
    by (cases "add_block_vars lamb js m1")
  from Cons.prems p av rec have res: "x = (j, w) # x2" "model1 = m2"
    by simp_all
  from av have m1: "model_vars m1 = model_vars model @ [w]" "model_conss m1 = model_conss model"
    "model_objective m1 = model_objective model" "problemName m1 = problemName model"
    by (auto simp: addVar_def Let_def)
  from Cons.IH [OF rec] m1 res p show ?case by simp
qed

lemma collect_dict_get:
  "set (map fst js) \<subseteq> set (map fst x) \<Longrightarrow>
     \<exists>ws. collect (\<lambda>(j, entries_k). dict_get x j) js = Inr ws \<and> length ws = length js"
proof (induction js)
  case Nil
  then show ?case by simp
next
  case (Cons p js)
  obtain j e where p: "p = (j, e)" by (cases p)
  with Cons.prems have "j \<in> fst ` set x" by simp
  then obtain w where "map_of x j = Some w"
    by (metis domIff dom_map_of_conv_image_fst not_Some_eq)
  then have g: "dict_get x j = Inr w" by (simp add: dict_get_def)
  from Cons have "\<exists>ws. collect (\<lambda>(j, entries_k). dict_get x j) js = Inr ws \<and> length ws = length js"
    by simp
  then obtain ws where "collect (\<lambda>(j, entries_k). dict_get x j) js = Inr ws" "length ws = length js"
    by blast
  with g p show ?case by simp
qed

lemma add_cover_conss_result:
  "map fst x = map fst (enumerate 0 set_k) \<Longrightarrow>
     \<exists>model1. add_cover_conss lamb x set_k ts model = Inr model1
       \<and> model_vars model1 = model_vars model
       \<and> length (model_conss model1) = length (model_conss model) + length ts"
proof (induction ts arbitrary: model)
  case Nil
  then show ?case by simp
next
  case (Cons p ts)
  obtain i entries_t where p: "p = (i, entries_t)" by (cases p)
  let ?sel = "filter (\<lambda>(j, entries_k). is_sorted_subset entries_t entries_k) (enumerate 0 set_k)"
  have "set (map fst ?sel) \<subseteq> set (map fst x)"
    using Cons.prems by (auto simp: in_set_enumerate_eq)
  from collect_dict_get [OF this]
  obtain ws where ws: "collect (\<lambda>(j, entries_k). dict_get x j) ?sel = Inr ws"
    by blast
  let ?m = "addCons (indexed_name ''cov'' i entries_t) (Geq (Quicksum (map Var ws)) (Const (PyInt lamb))) model"
  from Cons.IH [OF Cons.prems, of ?m]
  obtain model1 where "add_cover_conss lamb x set_k ts ?m = Inr model1"
    "model_vars model1 = model_vars ?m"
    "length (model_conss model1) = length (model_conss ?m) + length ts"
    by blast
  with ws p show ?case
    by (simp add: addCons_def)
qed

lemma generate_covering_design_result:
  assumes "0 \<le> t" and "0 \<le> k"
  shows "\<exists>model. generate_covering_design lamb v k t = Inr model
           \<and> length (model_vars model) = nat v choose nat k
           \<and> length (model_conss model) = nat v choose nat t"
proof -
  let ?set_k = "combinations (range_py v) (nat k)"
  let ?set_t = "combinations (range_py v) (nat t)"
  let ?m0 = "new_Model (''cov_'' @ str_int lamb @ ''('' @ str_int v @ '','' @ str_int k
                               @ '','' @ str_int t @ '')'')"
  from assms have ck: "itertools_combinations (range_py v) k = Inr ?set_k"
    and ct: "itertools_combinations (range_py v) t = Inr ?set_t"
    by (simp_all add: itertools_combinations_def)
  obtain x m1 where bv: "add_block_vars lamb (enumerate 0 ?set_k) ?m0 = (x, m1)"
    by (cases "add_block_vars lamb (enumerate 0 ?set_k) ?m0")
  from add_block_vars_result [OF bv]
  have keys: "map fst x = map fst (enumerate 0 ?set_k)"
    and vars1: "model_vars m1 = map snd x"
    and conss1: "model_conss m1 = []"
    by (simp_all add: new_Model_def)
  from add_cover_conss_result [OF keys, of lamb "enumerate 0 ?set_t" m1]
  obtain m2 where cc: "add_cover_conss lamb x ?set_k (enumerate 0 ?set_t) m1 = Inr m2"
    and vars2: "model_vars m2 = model_vars m1"
    and conss2: "length (model_conss m2) = length (model_conss m1) + length (enumerate 0 ?set_t)"
    by blast
  let ?m3 = "setObjective (Quicksum (map (\<lambda>(j, w). Var w) x)) Minimize m2"
  have res: "generate_covering_design lamb v k t = Inr ?m3"
    using ck ct bv cc by (simp add: generate_covering_design_def)
  have "length x = length ?set_k"
    using keys by (metis length_enumerate length_map)
  then have nv: "length (model_vars ?m3) = nat v choose nat k"
    using vars1 vars2 by (simp add: setObjective_def length_combinations range_py_def)
  have nc: "length (model_conss ?m3) = nat v choose nat t"
    using conss1 conss2 by (simp add: setObjective_def length_combinations range_py_def)
  from res nv nc show ?thesis by blast
qed


lemma set_product4:
  "set (product4 as bs cs ds) = {(a, b, c, d). a \<in> set as \<and> b \<in> set bs \<and> c \<in> set cs \<and> d \<in> set ds}"
  by (auto simp: product4_def)

lemma lambs_vs_values: "lambs = [2, 3]" "vs = [1, 2, 3, 4, 5, 6, 7, 8, 9, 10, 11, 12]"
  by (simp_all add: lambs_def vs_def upt_rec)

lemma main_body_result:
  assumes "0 \<le> snd (snd (snd p))"
  shows "\<exists>st1 cs. main_body p st = Inr st1
           \<and> calls st1 = calls st @ cs
           \<and> (\<forall>q \<in> set cs. required_relation q)
           \<and> (\<forall>path. files st path \<noteq> None \<longrightarrow> files st1 path \<noteq> None)
           \<and> (\<forall>path. files st1 path \<noteq> None \<longrightarrow>
                  files st path \<noteq> None \<or> (\<exists>q \<in> set cs. writepath_of q = path))
           \<and> (required_relation p \<longrightarrow> files st1 (writepath_of p) \<noteq> None)"
proof -
  obtain lamb v k t where p: "p = (lamb, v, k, t)" by (cases p)
  with assms have t0: "0 \<le> t" by simp
  show ?thesis
  proof (cases "files st (writepath_of p) \<noteq> None \<or> v \<le> k \<or> k \<le> t")
    case True
    then have "main_body p st = Inr st"
      using p by (auto simp: main_body_def Let_def)
    moreover have "calls st = calls st @ []" by simp
    moreover have "required_relation p \<longrightarrow> files st (writepath_of p) \<noteq> None"
      using True p by (auto simp: required_relation_def)
    ultimately show ?thesis by fastforce
  next
    case False
    with t0 have "0 \<le> k" by simp
    from generate_covering_design_result [OF t0 this, of lamb v]
    obtain model where "generate_covering_design lamb v k t = Inr model"
      by blast
    with False p have
      "main_body p st = Inr (st\<lparr>files := (files st)(writepath_of p := Some model), calls := calls st @ [p]\<rparr>)"
      by (simp add: main_body_def Let_def)
    moreover have "required_relation p"
      using False p t0 by (simp add: required_relation_def)
    ultimately show ?thesis by (intro exI [of _ "[p]"] exI) auto
  qed
qed

lemma main_loop_result:
  assumes "\<forall>p \<in> set ps. 0 \<le> snd (snd (snd p))"
  shows "\<exists>st2 cs. main_loop ps st = Inr st2
           \<and> calls st2 = calls st @ cs
           \<and> (\<forall>q \<in> set cs. required_relation q)
           \<and> (\<forall>path. files st path \<noteq> None \<longrightarrow> files st2 path \<noteq> None)
           \<and> (\<forall>path. files st2 path \<noteq> None \<longrightarrow>
                  files st path \<noteq> None \<or> (\<exists>q \<in> set cs. writepath_of q = path))
           \<and> (\<forall>p \<in> set ps. required_relation p \<longrightarrow> files st2 (writepath_of p) \<noteq> None)"
  using assms
proof (induction ps arbitrary: st)
  case Nil
  then show ?case by simp
next
  case (Cons p ps)
  from Cons.prems have p0: "0 \<le> snd (snd (snd p))" and ps0: "\<forall>p \<in> set ps. 0 \<le> snd (snd (snd p))"
    by simp_all
  from main_body_result [OF p0, of st]
  obtain st1 cs1 where b: "main_body p st = Inr st1"
    and bc: "calls st1 = calls st @ cs1" "\<forall>q \<in> set cs1. required_relation q"
    and bkeep: "\<And>path. files st path \<noteq> None \<Longrightarrow> files st1 path \<noteq> None"
    and bnew: "\<And>path. files st1 path \<noteq> None \<Longrightarrow>
                  files st path \<noteq> None \<or> (\<exists>q \<in> set cs1. writepath_of q = path)"
    and bvalid: "required_relation p \<Longrightarrow> files st1 (writepath_of p) \<noteq> None"
    by blast
  from Cons.IH [OF ps0, of st1]
  obtain st2 cs2 where l: "main_loop ps st1 = Inr st2"
    and lc: "calls st2 = calls st1 @ cs2" "\<forall>q \<in> set cs2. required_relation q"
    and lkeep: "\<And>path. files st1 path \<noteq> None \<Longrightarrow> files st2 path \<noteq> None"
    and lnew: "\<And>path. files st2 path \<noteq> None \<Longrightarrow>
                  files st1 path \<noteq> None \<or> (\<exists>q \<in> set cs2. writepath_of q = path)"
    and lvalid: "\<And>q. q \<in> set ps \<Longrightarrow> required_relation q
                  \<Longrightarrow> files st2 (writepath_of q) \<noteq> None"
    by blast
  have 1: "main_loop (p # ps) st = Inr st2"
    using b l by simp
  have 2: "calls st2 = calls st @ (cs1 @ cs2)"
    using bc(1) lc(1) by simp
  have 3: "\<forall>q \<in> set (cs1 @ cs2). required_relation q"
    using bc(2) lc(2) by auto
  have 4: "\<forall>path. files st path \<noteq> None \<longrightarrow> files st2 path \<noteq> None"
    using bkeep lkeep by blast
  have 5: "\<forall>path. files st2 path \<noteq> None \<longrightarrow>
                  files st path \<noteq> None \<or> (\<exists>q \<in> set (cs1 @ cs2). writepath_of q = path)"
  proof (intro allI impI)
    fix path assume "files st2 path \<noteq> None"
    from lnew [OF this] show "files st path \<noteq> None \<or> (\<exists>q \<in> set (cs1 @ cs2). writepath_of q = path)"
    proof
      assume "files st1 path \<noteq> None"
      from bnew [OF this] show ?thesis by auto
    next
      assume "\<exists>q \<in> set cs2. writepath_of q = path"
      then show ?thesis by auto
    qed
  qed
  have 6: "\<forall>q \<in> set (p # ps). required_relation q \<longrightarrow> files st2 (writepath_of q) \<noteq> None"
    using bvalid lkeep lvalid by auto
  from 1 2 3 4 5 6 show ?case by blast
qed

text \<open>
  C9. The batch driver never calls \<open>generate_covering_design\<close> on a parameter tuple that
  violates \<open>v > k > t \<ge> 0\<close>: whatever files exist at the start, the run completes and
  every recorded call satisfies the relation. A tuple with \<open>v \<le> k\<close> or \<open>k \<le> t\<close> is skipped by
  the loop body, which leaves the state as it was.
\<close>

theorem covering_main_skips_invalid:
  "(\<exists>st. covering_main fs = Inr st \<and> (\<forall>p \<in> set (calls st). required_relation p))
   \<and> (\<forall>lamb v k t st. v \<le> k \<or> k \<le> t \<longrightarrow> main_body (lamb, v, k, t) st = Inr st)"
proof
  have "\<forall>p \<in> set (product4 lambs vs vs vs). 0 \<le> snd (snd (snd p))"
    by (auto simp: set_product4 lambs_vs_values)
  from main_loop_result [OF this, of "\<lparr>files = fs, calls = []\<rparr>"]
  show "\<exists>st. covering_main fs = Inr st \<and> (\<forall>p \<in> set (calls st). required_relation p)"
    by (auto simp: covering_main_def)
  show "\<forall>lamb v k t st. v \<le> k \<or> k \<le> t \<longrightarrow> main_body (lamb, v, k, t) st = Inr st"
    by (auto simp: main_body_def Let_def)
qed

lemma covering_main_generates:
  assumes "covering_main (\<lambda>path. None) = Inr st"
  shows "calls st \<noteq> []"
proof -
  have all0: "\<forall>p \<in> set (product4 lambs vs vs vs). 0 \<le> snd (snd (snd p))"
    by (auto simp: set_product4 lambs_vs_values)
  have mem: "(2, 3, 2, 1) \<in> set (product4 lambs vs vs vs)"
    by (simp add: set_product4 lambs_vs_values)
  have rel: "required_relation (2, 3, 2, 1)"
    by (simp add: required_relation_def)
  from main_loop_result [OF all0, of "\<lparr>files = (\<lambda>path. None), calls = []\<rparr>"] assms
  obtain cs where cs: "calls st = cs"
    and new: "\<forall>path. files st path \<noteq> None \<longrightarrow> (\<exists>q \<in> set cs. writepath_of q = path)"
    and written: "\<forall>p \<in> set (product4 lambs vs vs vs). required_relation p \<longrightarrow> files st (writepath_of p) \<noteq> None"
    by (auto simp: covering_main_def)
  from written mem rel have "files st (writepath_of (2, 3, 2, 1)) \<noteq> None"
    by blast
  with new have "\<exists>q \<in> set cs. writepath_of q = writepath_of (2, 3, 2, 1)"
    by blast
  with cs show ?thesis by auto
qed

theorem covering_main_skips_invalid_witness:
  "(\<exists>st. covering_main (\<lambda>path. None) = Inr st \<and> calls st \<noteq> []
          \<and> list_all required_relation (calls st))
   \<and> ((2::int) \<le> 2 \<or> (2::int) \<le> 1)
   \<and> main_body (2, 2, 2, 1) \<lparr>files = (\<lambda>path. None), calls = []\<rparr>
         = Inr \<lparr>files = (\<lambda>path. None), calls = []\<rparr>"
proof -
  from covering_main_skips_invalid [of "\<lambda>path. None"]
  obtain st where st: "covering_main (\<lambda>path. None) = Inr st"
    and ok: "\<forall>p \<in> set (calls st). required_relation p"
    by blast
  have skip: "main_body (2, 2, 2, 1) \<lparr>files = (\<lambda>path. None), calls = []\<rparr>
         = Inr \<lparr>files = (\<lambda>path. None), calls = []\<rparr>"
    using covering_main_skips_invalid [of "\<lambda>path. None"] by simp
  from covering_main_generates [OF st] st ok skip show ?thesis
    by (auto simp: list_all_iff)
qed



section \<open>Properties of the noise-dosage instance and model\<close>












text \<open>
  C7, as stated, fails: the constructor accepts an instance with a negative dosage, a
  negative duration and \<open>total_hours = 0\<close>.
\<close>

theorem NoiseDosage_init_accepts_negative:
  "NoiseDosage_init ''bad'' 1 1 [Finite (- 1)] [1] [Finite (- 1)] 0
     = Inr \<lparr>nd_name = ''bad'', nd_m = 1, nd_n = 1, nd_alpha = [Finite (- 1)], nd_d = [1],
            nd_t = [Finite (- 1)], nd_total_hours = 0\<rparr>
   \<and> \<not> data_model_invariants
         \<lparr>nd_name = ''bad'', nd_m = 1, nd_n = 1, nd_alpha = [Finite (- 1)], nd_d = [1],
            nd_t = [Finite (- 1)], nd_total_hours = 0\<rparr>"
  by (simp add: NoiseDosage_init_def data_model_invariants_def)

text \<open>
  C7, amended. The constructor checks the lengths and nothing else: it accepts its
  arguments exactly when \<open>alpha\<close>, \<open>d\<close> and \<open>t\<close> all have length \<open>m\<close>, it raises AssertionError
  otherwise, and every instance it returns has lists of length \<open>m\<close>.
\<close>

theorem NoiseDosage_init_checks_lengths:
  "NoiseDosage_init name m n alpha d t total_hours
     = (if int (length alpha) = m \<and> int (length d) = m \<and> int (length t) = m
        then Inr \<lparr>nd_name = name, nd_m = m, nd_n = n, nd_alpha = alpha, nd_d = d, nd_t = t,
                   nd_total_hours = total_hours\<rparr>
        else Inl AssertionError)
   \<and> (\<forall>inst. NoiseDosage_init name m n alpha d t total_hours = Inr inst \<longrightarrow> lengths_agree inst)"
  by (auto simp: NoiseDosage_init_def lengths_agree_def)

theorem NoiseDosage_init_checks_lengths_witness:
  "NoiseDosage_init ''w'' 2 3 [Finite 18, Finite 20] [5, 7] [Finite 4, Finite 6] 480
     = Inr \<lparr>nd_name = ''w'', nd_m = 2, nd_n = 3, nd_alpha = [Finite 18, Finite 20], nd_d = [5, 7],
            nd_t = [Finite 4, Finite 6], nd_total_hours = 480\<rparr>
   \<and> lengths_agree \<lparr>nd_name = ''w'', nd_m = 2, nd_n = 3, nd_alpha = [Finite 18, Finite 20],
            nd_d = [5, 7], nd_t = [Finite 4, Finite 6], nd_total_hours = 480\<rparr>
   \<and> NoiseDosage_init ''w'' 2 3 [Finite 18] [5, 7] [Finite 4, Finite 6] 480 = Inl AssertionError"
proof -
  have a: "NoiseDosage_init ''w'' 2 3 [Finite 18, Finite 20] [5, 7] [Finite 4, Finite 6] 480
     = Inr \<lparr>nd_name = ''w'', nd_m = 2, nd_n = 3, nd_alpha = [Finite 18, Finite 20], nd_d = [5, 7],
            nd_t = [Finite 4, Finite 6], nd_total_hours = 480\<rparr>"
    using NoiseDosage_init_checks_lengths
      [of "''w''" 2 3 "[Finite 18, Finite 20]" "[5, 7]" "[Finite 4, Finite 6]" 480]
    by simp
  have b: "lengths_agree \<lparr>nd_name = ''w'', nd_m = 2, nd_n = 3, nd_alpha = [Finite 18, Finite 20],
            nd_d = [5, 7], nd_t = [Finite 4, Finite 6], nd_total_hours = 480\<rparr>"
    using NoiseDosage_init_checks_lengths
      [of "''w''" 2 3 "[Finite 18, Finite 20]" "[5, 7]" "[Finite 4, Finite 6]" 480] a
    by blast
  have c: "NoiseDosage_init ''w'' 2 3 [Finite 18] [5, 7] [Finite 4, Finite 6] 480 = Inl AssertionError"
    using NoiseDosage_init_checks_lengths
      [of "''w''" 2 3 "[Finite 18]" "[5, 7]" "[Finite 4, Finite 6]" 480]
    by simp
  from a b c show ?thesis by blast
qed

section \<open>Properties of \<open>read_noise_dosage\<close>\<close>











section \<open>Properties of the instance generator\<close>




section \<open>Properties of the weighting base of the symmetry-handling branch\<close>



















end
